theory Spec2Isabelle
  imports Complex_Main "HOL-Library.Word" "HOL-Library.Multiset"
begin

section \<open>Data model (1brc.go, boxer.go)\<close>

text \<open>
  Bytes are \<^typ>\<open>char\<close>, a byte slice is a \<^typ>\<open>string\<close>. Go's \<open>float64\<close> is
  modelled by \<^typ>\<open>real\<close> with exact arithmetic; where the rounding of a
  \<open>float64\<close> sum decides a statement, the rounded operations \<open>f64_add\<close> and
  \<open>f64_div\<close> below are used instead. The \<open>int64\<close> arithmetic of the partitioner is
  modelled with its wrap-around (\<open>make_chunks64\<close>). The scanner's sizes, offsets
  and indices are naturals, and \<open>make_chunks\<close> is the partitioner's loop on
  naturals, equal to \<open>make_chunks64\<close> while no sum reaches \<open>2^63\<close>. The counter of
  an aggregate is an \<^typ>\<open>int\<close>.
\<close>

text \<open>\<open>type Result struct { min, max, sum float64; count int64 }\<close>\<close>

record Result =
  min_r :: real
  max_r :: real
  sum_r :: real
  count_r :: int

text \<open>\<open>type chunk struct { offset, size int64 }\<close>\<close>

record chunk =
  offset :: nat
  size_c :: nat

text \<open>\<open>map[string]*Result\<close>: a table from station name to aggregate.\<close>

type_synonym table = "string \<rightharpoonup> Result"

text \<open>The run-time panics the scanner can raise.\<close>

datatype panic = IndexOutOfRange | SliceBoundsOutOfRange

text \<open>The errors \<open>io.ReadFull\<close> can return.\<close>

datatype io_error = EOF | ErrUnexpectedEOF | ReadFailure

text \<open>
  An open file: its bytes, and the error (if any) with which the operating system
  answers every read of it.
\<close>

record os_file =
  contents :: string
  fault :: "io_error option"

abbreviation newline :: char where
  "newline \<equiv> CHR 0x0A"

section \<open>Numeric Parser: \<open>parseTemp\<close>\<close>

text \<open>\<open>float64(c - '0')\<close> on a byte: the subtraction wraps modulo 256.\<close>

definition digit :: "char \<Rightarrow> real" where
  "digit c = real (unat ((of_char c :: 8 word) - 48))"

text \<open>
  The \<open>for _, c := range s\<close> loop of 1brc.go, on the state
  \<open>(val, decimal, decimalPos)\<close>. \<open>decimalPos\<close> is multiplied and never read.
\<close>

fun parse_loop :: "string \<Rightarrow> real \<times> bool \<times> real \<Rightarrow> real \<times> bool \<times> real" where
  "parse_loop [] st = st"
| "parse_loop (c # cs) (val, decimal, decimalPos) =
     (if c = CHR ''.'' then parse_loop cs (val, True, decimalPos)
      else if decimal then parse_loop cs (val + digit c / 10, decimal, decimalPos * 10)
      else parse_loop cs (val * 10 + digit c, decimal, decimalPos))"

definition parseTemp :: "string \<Rightarrow> panic + real" where
  "parseTemp s =
     (case s of
        [] \<Rightarrow> Inl IndexOutOfRange
      | c # cs \<Rightarrow>
          (let neg = (c = CHR ''-'');
               s' = (if neg then cs else s);
               val = fst (parse_loop s' (0, False, 1))
           in Inr (if neg then - val else val)))"

text \<open>The loop of boxer.go's \<open>parseTemp\<close>, on the state \<open>(val, decimal)\<close>.\<close>

fun parse_loop_boxer :: "string \<Rightarrow> real \<times> bool \<Rightarrow> real \<times> bool" where
  "parse_loop_boxer [] st = st"
| "parse_loop_boxer (c # cs) (val, decimal) =
     (if c = CHR ''.'' then parse_loop_boxer cs (val, True)
      else if decimal then parse_loop_boxer cs (val + digit c / 10, decimal)
      else parse_loop_boxer cs (val * 10 + digit c, decimal))"

definition parseTemp_boxer :: "string \<Rightarrow> panic + real" where
  "parseTemp_boxer s =
     (case s of
        [] \<Rightarrow> Inl IndexOutOfRange
      | c # cs \<Rightarrow>
          (let neg = (c = CHR ''-'');
               s' = (if neg then cs else s);
               val = fst (parse_loop_boxer s' (0, False))
           in Inr (if neg then - val else val)))"

section \<open>Folding one observation into a table\<close>

text \<open>
  Lines 120--136 of 1brc.go (and 103--124 of boxer.go): update the aggregate of an
  existing station, or insert a fresh one.
\<close>

definition update_result :: "Result \<Rightarrow> real \<Rightarrow> Result" where
  "update_result result temp =
     \<lparr>min_r = (if temp < min_r result then temp else min_r result),
      max_r = (if temp > max_r result then temp else max_r result),
      sum_r = sum_r result + temp,
      count_r = count_r result + 1\<rparr>"

definition new_result :: "real \<Rightarrow> Result" where
  "new_result temp = \<lparr>min_r = temp, max_r = temp, sum_r = temp, count_r = 1\<rparr>"

definition observe :: "table \<Rightarrow> string \<Rightarrow> real \<Rightarrow> table" where
  "observe results stationName temp =
     (case results stationName of
        Some result \<Rightarrow> results(stationName \<mapsto> update_result result temp)
      | None \<Rightarrow> results(stationName \<mapsto> new_result temp))"

text \<open>Folding a sequence of observations, in order.\<close>

fun fold_obs :: "(string \<times> real) list \<Rightarrow> table \<Rightarrow> table" where
  "fold_obs [] results = results"
| "fold_obs ((k, v) # obs) results = fold_obs obs (observe results k v)"

section \<open>Chunk Scanner: \<open>processChunk\<close>\<close>

text \<open>\<open>for i < len(buf) && buf[i] != '\n' { i++ }\<close> (lines 90--92 and 114--116).\<close>

function find_newline :: "string \<Rightarrow> nat \<Rightarrow> nat" where
  "find_newline buf i =
     (if i < length buf \<and> buf ! i \<noteq> newline then find_newline buf (i + 1) else i)"
  by pat_completeness auto
termination
  by (relation "measure (\<lambda>(buf, i). length buf - i)") auto

declare find_newline.simps [simp del]

text \<open>\<open>for end > 0 && buf[end-1] != '\n' { end-- }\<close> (lines 97--99).\<close>

function trim_end :: "string \<Rightarrow> nat \<Rightarrow> nat" where
  "trim_end buf e =
     (if e > 0 \<and> buf ! (e - 1) \<noteq> newline then trim_end buf (e - 1) else e)"
  by pat_completeness auto
termination
  by (relation "measure (\<lambda>(buf, e). e)") auto

declare trim_end.simps [simp del]

text \<open>
  \<open>for buf[semicolon] != ';' { semicolon++ }\<close> (lines 106--108): there is no end
  check, the index expression panics once \<open>semicolon\<close> reaches \<open>len(buf)\<close>.
\<close>

function find_semicolon :: "string \<Rightarrow> nat \<Rightarrow> panic + nat" where
  "find_semicolon buf semicolon =
     (if semicolon \<ge> length buf then Inl IndexOutOfRange
      else if buf ! semicolon \<noteq> CHR '';'' then find_semicolon buf (semicolon + 1)
      else Inr semicolon)"
  by pat_completeness auto
termination
  by (relation "measure (\<lambda>(buf, i). length buf - i)") auto

declare find_semicolon.simps [simp del]

lemma find_newline_ge: "i \<le> find_newline buf i"
proof (induction buf i rule: find_newline.induct)
  case (1 buf i)
  show ?case
  proof (cases "i < length buf \<and> buf ! i \<noteq> newline")
    case True
    with 1 have "i + 1 \<le> find_newline buf (i + 1)" by blast
    moreover from True have "find_newline buf i = find_newline buf (i + 1)"
      by (subst find_newline.simps) simp
    ultimately show ?thesis by simp
  next
    case False
    then have "find_newline buf i = i"
      by (subst find_newline.simps) auto
    then show ?thesis by simp
  qed
qed

lemma find_semicolon_ge: "find_semicolon buf i = Inr s \<Longrightarrow> i \<le> s \<and> s < length buf"
proof (induction buf i rule: find_semicolon.induct)
  case (1 buf i)
  from "1.prems" have lt: "i < length buf"
    by (subst (asm) find_semicolon.simps) (auto split: if_splits)
  show ?case
  proof (cases "buf ! i \<noteq> CHR '';''")
    case True
    with lt "1.prems" have "find_semicolon buf (i + 1) = Inr s"
      by (subst (asm) find_semicolon.simps) simp
    with 1 lt True have "i + 1 \<le> s \<and> s < length buf" by simp
    then show ?thesis by simp
  next
    case False
    with lt "1.prems" have "s = i"
      by (subst (asm) find_semicolon.simps) simp
    with lt show ?thesis by simp
  qed
qed

text \<open>The line loop of \<open>processChunk\<close> (lines 103--139) on the snapped buffer.\<close>

function scan_lines :: "string \<Rightarrow> nat \<Rightarrow> table \<Rightarrow> panic + table" where
  "scan_lines buf pos results =
     (if pos < length buf then
        (case find_semicolon buf pos of
           Inl p \<Rightarrow> Inl p
         | Inr semicolon \<Rightarrow>
             (case parseTemp (take (find_newline buf (semicolon + 1) - (semicolon + 1))
                                   (drop (semicolon + 1) buf)) of
                Inl p \<Rightarrow> Inl p
              | Inr temp \<Rightarrow>
                  scan_lines buf (find_newline buf (semicolon + 1) + 1)
                    (observe results (take (semicolon - pos) (drop pos buf)) temp)))
      else Inr results)"
  by pat_completeness auto
termination
proof (relation "measure (\<lambda>(buf, pos, results). length buf - pos)", goal_cases)
  case 1
  show ?case by simp
next
  case (2 buf pos results semicolon temp)
  from 2 have "pos \<le> semicolon" using find_semicolon_ge by blast
  moreover have "semicolon + 1 \<le> find_newline buf (semicolon + 1)"
    by (rule find_newline_ge)
  ultimately show ?case using 2 by simp
qed

declare scan_lines.simps [simp del]

text \<open>
  \<open>file.Seek(chunk.offset, 0); io.ReadFull(file, buf)\<close> with \<open>len(buf) = n\<close>:
  the \<open>n\<close> bytes at \<open>off\<close>, or an error when the file is faulty or holds fewer
  bytes there. An empty buffer is filled without reading. The seek and the read of
  one scanner are one step here: how the scanners interleave on the offset of the
  shared file is outside the model.
\<close>

definition ReadFull :: "os_file \<Rightarrow> nat \<Rightarrow> nat \<Rightarrow> io_error + string" where
  "ReadFull file off n =
     (if n = 0 then Inr []
      else case fault file of
        Some e \<Rightarrow> Inl e
      | None \<Rightarrow>
          if length (contents file) \<le> off then Inl EOF
          else if length (contents file) < off + n then Inl ErrUnexpectedEOF
          else Inr (take n (drop off (contents file))))"

text \<open>Start-snapping (lines 88--94) and end-snapping (lines 96--99).\<close>

definition snap_start :: "nat \<Rightarrow> string \<Rightarrow> nat" where
  "snap_start off buf = (if off \<noteq> 0 then find_newline buf 0 + 1 else 0)"

definition snap_end :: "string \<Rightarrow> nat" where
  "snap_end buf = trim_end buf (length buf)"

text \<open>
  \<open>processChunk\<close>: a failed read returns the empty table (lines 84--86); the
  re-slice \<open>buf[start:end]\<close> panics when \<open>start > end\<close> (line 101).
\<close>

definition processChunk :: "os_file \<Rightarrow> chunk \<Rightarrow> panic + table" where
  "processChunk file c =
     (case ReadFull file (offset c) (size_c c) of
        Inl err \<Rightarrow> Inr Map.empty
      | Inr buf \<Rightarrow>
          (let start = snap_start (offset c) buf;
               end = snap_end buf
           in if start > end then Inl SliceBoundsOutOfRange
              else scan_lines (take (end - start) (drop start buf)) 0 Map.empty))"

section \<open>Range Partitioner (\<open>main\<close>, lines 177--190)\<close>

text \<open>
  The loop on \<open>int64\<close>, as the program runs it. \<open>wrap64\<close> is the value an
  \<open>int64\<close> sum or difference takes; \<open>go_div\<close> is Go's \<open>/\<close> on integers, which
  truncates towards zero.
\<close>

definition wrap64 :: "int \<Rightarrow> int" where
  "wrap64 x = (x + 2 ^ 63) mod 2 ^ 64 - 2 ^ 63"

definition go_div :: "int \<Rightarrow> int \<Rightarrow> int" where
  "go_div a b = wrap64 (sgn a * sgn b * (\<bar>a\<bar> div \<bar>b\<bar>))"

text \<open>\<open>type chunk struct { offset, size int64 }\<close> with its fields as 64-bit integers.\<close>

record chunk64 =
  offset64 :: int
  size64 :: int

text \<open>
  \<open>chunkSize := fileSize / int64(numCPUs)\<close>, raised to 1 MiB when smaller;
  \<open>numCPUs\<close> is \<open>runtime.NumCPU()\<close>, at least \<open>1\<close>.
\<close>

definition nominal_chunk_size64 :: "int \<Rightarrow> int \<Rightarrow> int" where
  "nominal_chunk_size64 fileSize numCPUs =
     (let chunkSize = go_div fileSize numCPUs
      in if chunkSize < 1024 * 1024 then 1024 * 1024 else chunkSize)"

text \<open>
  The \<open>for offset := 0; offset < fileSize; offset += chunkSize\<close> loop, from the
  current \<open>offset\<close> and the chunks appended so far: \<open>offset+size\<close>,
  \<open>fileSize - offset\<close> and \<open>offset += chunkSize\<close> wrap.
\<close>

partial_function (option) make_chunks64 :: "int \<Rightarrow> int \<Rightarrow> int \<Rightarrow> chunk64 list \<Rightarrow> chunk64 list option" where
  "make_chunks64 fileSize chunkSize off chunks =
     (if off < fileSize then
        make_chunks64 fileSize chunkSize (wrap64 (off + chunkSize))
          (chunks @ [\<lparr>offset64 = off,
                      size64 = (if wrap64 (off + chunkSize) > fileSize then wrap64 (fileSize - off)
                                else chunkSize)\<rparr>])
      else Some chunks)"

definition partition_file64 :: "int \<Rightarrow> int \<Rightarrow> chunk64 list option" where
  "partition_file64 fileSize numCPUs =
     make_chunks64 fileSize (nominal_chunk_size64 fileSize numCPUs) 0 []"

text \<open>
  The same computation on naturals, for the chunks handed to the scanners: it
  agrees with the loop on \<open>int64\<close> while \<open>fileSize + chunkSize\<close> does not exceed
  \<open>2^63\<close> (\<open>partition_file64_agrees\<close> below).
\<close>

definition nominal_chunk_size :: "nat \<Rightarrow> nat \<Rightarrow> nat" where
  "nominal_chunk_size fileSize numCPUs =
     (let chunkSize = fileSize div numCPUs
      in if chunkSize < 1024 * 1024 then 1024 * 1024 else chunkSize)"

partial_function (option) make_chunks :: "nat \<Rightarrow> nat \<Rightarrow> nat \<Rightarrow> chunk list \<Rightarrow> chunk list option" where
  "make_chunks fileSize chunkSize off chunks =
     (if off < fileSize then
        make_chunks fileSize chunkSize (off + chunkSize)
          (chunks @ [\<lparr>offset = off,
                      size_c = (if off + chunkSize > fileSize then fileSize - off
                                else chunkSize)\<rparr>])
      else Some chunks)"

declare make_chunks.simps [code]

definition partition_file :: "nat \<Rightarrow> nat \<Rightarrow> chunk list option" where
  "partition_file fileSize numCPUs =
     make_chunks fileSize (nominal_chunk_size fileSize numCPUs) 0 []"

section \<open>Aggregate Merger (\<open>main\<close>, lines 209--225)\<close>

definition merge_result :: "Result \<Rightarrow> Result \<Rightarrow> Result" where
  "merge_result final result =
     \<lparr>min_r = (if min_r result < min_r final then min_r result else min_r final),
      max_r = (if max_r result > max_r final then max_r result else max_r final),
      sum_r = sum_r final + sum_r result,
      count_r = count_r final + count_r result\<rparr>"

text \<open>
  Folding one Local Table into \<open>finalResults\<close>. The keys of a Go map are distinct,
  so the order of \<open>range results\<close> does not show in the result.
\<close>

definition merge_table :: "table \<Rightarrow> table \<Rightarrow> table" where
  "merge_table finalResults results =
     (\<lambda>station.
        case results station of
          None \<Rightarrow> finalResults station
        | Some result \<Rightarrow>
            (case finalResults station of
               Some final \<Rightarrow> Some (merge_result final result)
             | None \<Rightarrow> Some result))"

fun merge_all :: "table list \<Rightarrow> table \<Rightarrow> table" where
  "merge_all [] finalResults = finalResults"
| "merge_all (results # rest) finalResults = merge_all rest (merge_table finalResults results)"

text \<open>The mean the report computes: \<open>result.sum / float64(result.count)\<close>.\<close>

definition mean :: "Result \<Rightarrow> real" where
  "mean result = sum_r result / real_of_int (count_r result)"

section \<open>The pipeline of 1brc.go\<close>

text \<open>
  The scanners run one per chunk; a panic in any of them ends the program. The
  tables are merged in the order of the chunks; by \<open>merge_all\<close> being independent of
  the order, this stands for every order of arrival on the channel.
\<close>

fun collect :: "(panic + table) list \<Rightarrow> panic + table list" where
  "collect [] = Inr []"
| "collect (Inl p # rs) = Inl p"
| "collect (Inr t # rs) = (case collect rs of Inl p \<Rightarrow> Inl p | Inr ts \<Rightarrow> Inr (t # ts))"

definition run :: "os_file \<Rightarrow> nat \<Rightarrow> (panic + table) option" where
  "run file numCPUs =
     (case partition_file (length (contents file)) numCPUs of
        None \<Rightarrow> None
      | Some chunks \<Rightarrow>
          Some (case collect (map (processChunk file) chunks) of
                  Inl p \<Rightarrow> Inl p
                | Inr tables \<Rightarrow> Inr (merge_all tables Map.empty)))"

section \<open>The line loop of boxer.go (\<open>calculateStats\<close>, lines 89--125)\<close>

text \<open>\<open>bytes.IndexByte\<close>: the index of the first occurrence, \<open>None\<close> for \<open>-1\<close>.\<close>

fun IndexByte :: "string \<Rightarrow> char \<Rightarrow> nat option" where
  "IndexByte [] c = None"
| "IndexByte (x # xs) c = (if x = c then Some 0 else map_option Suc (IndexByte xs c))"

text \<open>The loop body on one line the scanner delivers.\<close>

definition stats_line :: "table \<Rightarrow> string \<Rightarrow> panic + table" where
  "stats_line stations line =
     (case IndexByte line CHR '';'' of
        None \<Rightarrow> Inr stations
      | Some sepIndex \<Rightarrow>
          (case parseTemp_boxer (drop (sepIndex + 1) line) of
             Inl p \<Rightarrow> Inl p
           | Inr temp \<Rightarrow> Inr (observe stations (take sepIndex line) temp)))"

fun stats_lines :: "string list \<Rightarrow> table \<Rightarrow> panic + table" where
  "stats_lines [] stations = Inr stations"
| "stats_lines (line # rest) stations =
     (case stats_line stations line of
        Inl p \<Rightarrow> Inl p
      | Inr stations' \<Rightarrow> stats_lines rest stations')"

section \<open>\<open>float64\<close> sums\<close>





section \<open>Evaluation on concrete inputs\<close>

text \<open>The equations that evaluate the scanner and the run on a concrete file.\<close>

lemmas scan_eval = processChunk_def ReadFull_def snap_start_def snap_end_def
  trim_end.simps find_newline.simps scan_lines.simps find_semicolon.simps
  parseTemp_def digit_def observe_def new_result_def update_result_def
lemmas run_eval = run_def partition_file_def nominal_chunk_size_def make_chunks.simps
  merge_table_def

section \<open>Numeric Parser: evaluation\<close>

text \<open>
  Claim C5. On the representative tokens of the one-fractional-digit format the
  Numeric Parser returns the represented value: \<open>"-3.2"\<close> gives \<open>-3.2\<close>, \<open>"0.0"\<close>
  gives \<open>0.0\<close> and \<open>"100"\<close> gives \<open>100.0\<close>, so printing the result with one decimal
  digit gives back the digits that were parsed.
\<close>

theorem parseTemp_representative:
  "parseTemp ''-3.2'' = Inr (-3.2) \<and> parseTemp ''0.0'' = Inr 0 \<and> parseTemp ''100'' = Inr 100"
  by (simp add: parseTemp_def digit_def)

text \<open>
  Claim C4. The parser is to weigh the fractional digit at position \<open>p\<close> by
  \<open>10^p\<close>, so that \<open>"1.25"\<close> is \<open>1.25\<close>. Both programs divide every fractional
  digit by \<open>10\<close>: \<open>"1.25"\<close> parses to \<open>1 + 2/10 + 5/10 = 1.7\<close>.
\<close>

theorem parseTemp_two_fraction_digits:
  "parseTemp ''1.25'' = Inr 1.7 \<and> parseTemp ''1.25'' \<noteq> Inr 1.25 \<and>
   parseTemp_boxer ''1.25'' = Inr 1.7"
  by (simp add: parseTemp_def parseTemp_boxer_def digit_def)

section \<open>Chunk Scanner: read failures and snapping\<close>

lemma find_newline_none:
  "newline \<notin> set buf \<Longrightarrow> i \<le> length buf \<Longrightarrow> find_newline buf i = length buf"
proof (induction buf i rule: find_newline.induct)
  case (1 buf i)
  show ?case
  proof (cases "i < length buf")
    case True
    with "1.prems" have ne: "buf ! i \<noteq> newline" by (metis nth_mem)
    with True 1 have "find_newline buf (i + 1) = length buf" by simp
    with True ne show ?thesis by (subst find_newline.simps) simp
  next
    case False
    with "1.prems" show ?thesis by (subst find_newline.simps) simp
  qed
qed

lemma trim_end_none:
  "newline \<notin> set buf \<Longrightarrow> e \<le> length buf \<Longrightarrow> trim_end buf e = 0"
proof (induction buf e rule: trim_end.induct)
  case (1 buf e)
  show ?case
  proof (cases "e > 0")
    case True
    with "1.prems" have ne: "buf ! (e - 1) \<noteq> newline"
      by (metis One_nat_def Suc_le_lessD Suc_pred nth_mem)
    with True 1 have "trim_end buf (e - 1) = 0" by simp
    with True ne show ?thesis by (subst trim_end.simps) simp
  next
    case False
    then show ?thesis by (subst trim_end.simps) simp
  qed
qed

text \<open>
  Claim C3, as the code has it. When reading the byte range of a chunk fails (a
  short read or an I/O failure), \<open>processChunk\<close> returns the empty Local Table and
  no error; merged into the Global Table, that table changes nothing.
\<close>

theorem processChunk_read_failure:
  assumes "ReadFull file (offset c) (size_c c) = Inl e"
  shows "processChunk file c = Inr Map.empty \<and>
         merge_table finalResults Map.empty = finalResults"
  using assms by (simp add: processChunk_def merge_table_def)

theorem processChunk_read_failure_witness:
  "ReadFull \<lparr>contents = ''a;1'', fault = Some ReadFailure\<rparr> 0 3 = Inl ReadFailure \<and>
   processChunk \<lparr>contents = ''a;1'', fault = Some ReadFailure\<rparr> \<lparr>offset = 0, size_c = 3\<rparr>
     = Inr Map.empty \<and>
   merge_table (Map.empty(''b'' \<mapsto> new_result 2)) Map.empty = Map.empty(''b'' \<mapsto> new_result 2)"
proof -
  have r: "ReadFull \<lparr>contents = ''a;1'', fault = Some ReadFailure\<rparr>
             (offset \<lparr>offset = 0, size_c = 3\<rparr>) (size_c \<lparr>offset = 0, size_c = 3\<rparr>)
           = Inl ReadFailure"
    by (simp add: ReadFull_def)
  from processChunk_read_failure [OF r] r show ?thesis by simp
qed

text \<open>
  Claim C3, as stated, fails: a short read (ten bytes asked of a four-byte file) is
  answered with the empty Local Table, not with an error.
\<close>

theorem processChunk_read_failure_counterexample:
  "ReadFull \<lparr>contents = ''a;1\<newline>'', fault = None\<rparr> 0 10 = Inl ErrUnexpectedEOF \<and>
   processChunk \<lparr>contents = ''a;1\<newline>'', fault = None\<rparr> \<lparr>offset = 0, size_c = 10\<rparr>
     = Inr Map.empty"
  by (simp add: processChunk_def ReadFull_def)

text \<open>
  Claim C10. For a chunk with \<open>offset > 0\<close> whose bytes hold no newline,
  start-snapping runs to the end of the buffer and one past it
  (\<open>start = len(buf) + 1\<close>), end-snapping trims to \<open>0\<close>, and the re-slice
  \<open>buf[start:end]\<close> panics: the scanner returns neither a table nor an error.
\<close>

theorem processChunk_no_newline_panics:
  assumes "offset c > 0"
    and "ReadFull file (offset c) (size_c c) = Inr buf"
    and "newline \<notin> set buf"
  shows "snap_start (offset c) buf = length buf + 1 \<and> snap_end buf = 0 \<and>
         processChunk file c = Inl SliceBoundsOutOfRange"
proof -
  from assms(1,3) have s: "snap_start (offset c) buf = length buf + 1"
    by (simp add: snap_start_def find_newline_none)
  from assms(3) have e: "snap_end buf = 0"
    by (simp add: snap_end_def trim_end_none)
  from assms(2) s e have "processChunk file c = Inl SliceBoundsOutOfRange"
    by (simp add: processChunk_def)
  with s e show ?thesis by simp
qed

theorem processChunk_no_newline_panics_witness:
  "offset \<lparr>offset = 4, size_c = 3\<rparr> > 0 \<and>
   ReadFull \<lparr>contents = ''a;1\<newline>b;2'', fault = None\<rparr> 4 3 = Inr ''b;2'' \<and>
   newline \<notin> set ''b;2'' \<and>
   snap_start 4 ''b;2'' = 4 \<and> snap_end ''b;2'' = 0 \<and>
   processChunk \<lparr>contents = ''a;1\<newline>b;2'', fault = None\<rparr> \<lparr>offset = 4, size_c = 3\<rparr>
     = Inl SliceBoundsOutOfRange"
proof -
  have r: "ReadFull \<lparr>contents = ''a;1\<newline>b;2'', fault = None\<rparr>
             (offset \<lparr>offset = 4, size_c = 3\<rparr>) (size_c \<lparr>offset = 4, size_c = 3\<rparr>) = Inr ''b;2''"
    by (simp add: ReadFull_def)
  have n: "newline \<notin> set ''b;2''" by simp
  have p: "offset \<lparr>offset = 4, size_c = 3\<rparr> > 0" by simp
  from processChunk_no_newline_panics [OF p r n] r n show ?thesis by simp
qed

section \<open>Scanning whole lines\<close>

text \<open>
  A line \<open>key;token\<close> followed by its newline, and a text made of such lines. A line
  is well formed when the key holds no \<open>;\<close>, and the token is not empty and holds
  no newline. \<open>temp_of\<close> is what \<open>parseTemp\<close> returns on a token.
\<close>

definition encode_line :: "string \<times> string \<Rightarrow> string" where
  "encode_line l = fst l @ CHR '';'' # snd l @ [newline]"

definition encode :: "(string \<times> string) list \<Rightarrow> string" where
  "encode ls = concat (map encode_line ls)"

definition wf_line :: "string \<times> string \<Rightarrow> bool" where
  "wf_line l \<longleftrightarrow> CHR '';'' \<notin> set (fst l) \<and> newline \<notin> set (snd l) \<and> snd l \<noteq> []"

definition temp_of :: "string \<Rightarrow> real" where
  "temp_of tok = (case parseTemp tok of Inr v \<Rightarrow> v | Inl p \<Rightarrow> 0)"

definition obs_of :: "string \<times> string \<Rightarrow> string \<times> real" where
  "obs_of l = (fst l, temp_of (snd l))"

lemma parseTemp_temp_of: "tok \<noteq> [] \<Longrightarrow> parseTemp tok = Inr (temp_of tok)"
  by (cases tok) (simp_all add: temp_of_def parseTemp_def Let_def)

lemma encode_simps [simp]:
  "encode [] = []"
  "encode (l # ls) = encode_line l @ encode ls"
  "encode (ls @ ls') = encode ls @ encode ls'"
  by (simp_all add: encode_def)

lemma find_semicolon_skip:
  "CHR '';'' \<notin> set k \<Longrightarrow>
   find_semicolon (pre @ k @ CHR '';'' # rest) (length pre) = Inr (length pre + length k)"
proof (induction k arbitrary: pre)
  case Nil
  show ?case by (subst find_semicolon.simps) simp
next
  case (Cons x k)
  then have x: "x \<noteq> CHR '';''" and k: "CHR '';'' \<notin> set k" by auto
  from Cons.IH [OF k, of "pre @ [x]"]
  have "find_semicolon (pre @ x # k @ CHR '';'' # rest) (length pre + 1)
          = Inr (length pre + length (x # k))"
    by simp
  with x show ?case by (subst find_semicolon.simps) simp
qed

lemma find_newline_skip:
  "newline \<notin> set tok \<Longrightarrow>
   find_newline (pre @ tok @ newline # rest) (length pre) = length pre + length tok"
proof (induction tok arbitrary: pre)
  case Nil
  show ?case by (subst find_newline.simps) simp
next
  case (Cons x tok)
  then have x: "x \<noteq> newline" and k: "newline \<notin> set tok" by auto
  from Cons.IH [OF k, of "pre @ [x]"]
  have "find_newline (pre @ x # tok @ newline # rest) (length pre + 1)
          = length pre + length (x # tok)"
    by simp
  with x show ?case by (subst find_newline.simps) simp
qed

lemma scan_lines_step:
  assumes "wf_line (k, tok)"
  shows "scan_lines (pre @ encode_line (k, tok) @ rest) (length pre) tab
       = scan_lines (pre @ encode_line (k, tok) @ rest) (length (pre @ encode_line (k, tok)))
           (observe tab k (temp_of tok))"
proof -
  let ?buf = "pre @ encode_line (k, tok) @ rest"
  from assms have k: "CHR '';'' \<notin> set k" and t: "newline \<notin> set tok" and ne: "tok \<noteq> []"
    by (simp_all add: wf_line_def)
  have buf: "?buf = pre @ k @ CHR '';'' # (tok @ newline # rest)"
    by (simp add: encode_line_def)
  have buf': "?buf = (pre @ k @ [CHR '';'']) @ tok @ newline # rest"
    by (simp add: encode_line_def)
  have s: "find_semicolon ?buf (length pre) = Inr (length pre + length k)"
    unfolding buf using k by (rule find_semicolon_skip)
  have "find_newline ?buf (length (pre @ k @ [CHR '';''])) = length (pre @ k @ [CHR '';'']) + length tok"
    unfolding buf' using t by (rule find_newline_skip)
  then have n: "find_newline ?buf (length pre + length k + 1) = length pre + length k + 1 + length tok"
    by simp
  have key: "take (length pre + length k - length pre) (drop (length pre) ?buf) = k"
    by (simp add: buf)
  have "drop (length pre + length k + 1) ?buf = tok @ newline # rest"
    unfolding buf' by (metis append_eq_conv_conj length_append length_Cons list.size(3) One_nat_def add.assoc Suc_eq_plus1 add.right_neutral)
  then have tk: "take (length pre + length k + 1 + length tok - (length pre + length k + 1))
                  (drop (length pre + length k + 1) ?buf) = tok"
    by simp
  have lt: "length pre < length ?buf" by (simp add: encode_line_def)
  have len: "length (pre @ encode_line (k, tok)) = length pre + length k + 1 + length tok + 1"
    by (simp add: encode_line_def)
  show ?thesis
    apply (subst scan_lines.simps)
    apply (simp only: lt if_True s sum.case n key tk parseTemp_temp_of [OF ne] len)
    done
qed

lemma scan_lines_encode:
  assumes "\<forall>l \<in> set ls. wf_line l"
  shows "scan_lines (pre @ encode ls) (length pre) tab = Inr (fold_obs (map obs_of ls) tab)"
  using assms
proof (induction ls arbitrary: pre tab)
  case Nil
  show ?case by (subst scan_lines.simps) simp
next
  case (Cons l ls)
  obtain k tok where l: "l = (k, tok)" by (cases l)
  from Cons.prems have w: "wf_line (k, tok)" and ws: "\<forall>l \<in> set ls. wf_line l"
    by (simp_all add: l)
  have "scan_lines (pre @ encode (l # ls)) (length pre) tab
      = scan_lines ((pre @ encode_line (k, tok)) @ encode ls) (length (pre @ encode_line (k, tok)))
           (observe tab k (temp_of tok))"
    using scan_lines_step [OF w, of pre "encode ls" tab] by (simp add: l)
  also have "\<dots> = Inr (fold_obs (map obs_of ls) (observe tab k (temp_of tok)))"
    using ws by (rule Cons.IH)
  finally show ?case by (simp add: l obs_of_def [of "(k, tok)"])
qed

lemma trim_end_skip:
  "newline \<notin> set part \<Longrightarrow>
   trim_end (pre @ part @ rest) (length pre + length part) = trim_end (pre @ part @ rest) (length pre)"
proof (induction part arbitrary: rest rule: rev_induct)
  case Nil
  show ?case by simp
next
  case (snoc x part)
  then have x: "x \<noteq> newline" and p: "newline \<notin> set part" by auto
  let ?buf = "pre @ (part @ [x]) @ rest"
  have nth: "?buf ! (length pre + length part) = x"
    by (simp add: nth_append)
  have "trim_end ?buf (length pre + length (part @ [x])) = trim_end ?buf (length pre + length part)"
    using x nth by (subst trim_end.simps) simp
  also have "\<dots> = trim_end ?buf (length pre)"
    using snoc.IH [OF p, of "x # rest"] by simp
  finally show ?case .
qed

lemma trim_end_stop:
  "e = 0 \<or> buf ! (e - 1) = newline \<Longrightarrow> trim_end buf e = e"
  by (subst trim_end.simps) auto

lemma encode_ends_with_newline:
  "ls \<noteq> [] \<Longrightarrow> \<exists>body. encode ls = body @ [newline]"
proof (cases ls rule: rev_cases)
  case Nil
  moreover assume "ls \<noteq> []"
  ultimately show ?thesis by simp
next
  case (snoc ls' l)
  have "encode ls = (encode ls' @ fst l @ CHR '';'' # snd l) @ [newline]"
    by (simp add: snoc encode_line_def)
  then show ?thesis by blast
qed

lemma trim_end_lines:
  assumes "newline \<notin> set part"
  shows "trim_end (pre @ newline # encode ls @ part) (length (pre @ newline # encode ls @ part))
       = length (pre @ newline # encode ls)"
proof -
  let ?p = "pre @ newline # encode ls"
  obtain body where body: "?p = body @ [newline]"
  proof (cases "ls = []")
    case True
    then have "?p = pre @ [newline]" by simp
    then show ?thesis by (rule that)
  next
    case False
    then obtain b where "encode ls = b @ [newline]"
      using encode_ends_with_newline by blast
    then have "?p = (pre @ newline # b) @ [newline]" by simp
    then show ?thesis by (rule that)
  qed
  have "trim_end (?p @ part @ []) (length ?p + length part) = trim_end (?p @ part @ []) (length ?p)"
    using assms by (rule trim_end_skip)
  also have "\<dots> = length ?p"
  proof (rule trim_end_stop, rule disjI2)
    have "(?p @ part @ []) ! (length ?p - 1) = (body @ newline # part) ! length body"
      by (simp add: body)
    then show "(?p @ part @ []) ! (length ?p - 1) = newline" by simp
  qed
  finally show ?thesis by (simp add: add.assoc)
qed

lemma trim_end_lines0:
  assumes "newline \<notin> set part"
  shows "trim_end (encode ls @ part) (length (encode ls @ part)) = length (encode ls)"
proof -
  have "trim_end (encode ls @ part @ []) (length (encode ls) + length part)
      = trim_end (encode ls @ part @ []) (length (encode ls))"
    using assms by (rule trim_end_skip)
  also have "\<dots> = length (encode ls)"
  proof (cases "ls = []")
    case True
    then show ?thesis by (simp add: trim_end_stop)
  next
    case False
    then obtain b where b: "encode ls = b @ [newline]"
      using encode_ends_with_newline by blast
    have "(encode ls @ part @ []) ! (length (encode ls) - 1) = (b @ newline # part) ! length b"
      by (simp add: b)
    then have "(encode ls @ part @ []) ! (length (encode ls) - 1) = newline" by simp
    then show ?thesis by (simp add: trim_end_stop)
  qed
  finally show ?thesis by simp
qed

lemma scan_first_chunk:
  assumes "\<forall>l \<in> set ls. wf_line l" and "newline \<notin> set part"
    and "offset c = 0"
    and "ReadFull file (offset c) (size_c c) = Inr (encode ls @ part)"
  shows "processChunk file c = Inr (fold_obs (map obs_of ls) Map.empty)"
proof -
  let ?buf = "encode ls @ part"
  have s: "snap_start (offset c) ?buf = 0" using assms(3) by (simp add: snap_start_def)
  have e: "snap_end ?buf = length (encode ls)"
    unfolding snap_end_def using assms(2) by (rule trim_end_lines0)
  have "scan_lines ([] @ encode ls) (length ([]::string)) Map.empty
          = Inr (fold_obs (map obs_of ls) Map.empty)"
    using assms(1) by (rule scan_lines_encode)
  then show ?thesis
    using assms(4) s e by (simp add: processChunk_def)
qed

lemma scan_later_chunk:
  assumes "\<forall>l \<in> set ls. wf_line l" and "newline \<notin> set part" and "newline \<notin> set first"
    and "offset c \<noteq> 0"
    and "ReadFull file (offset c) (size_c c) = Inr (first @ newline # encode ls @ part)"
  shows "processChunk file c = Inr (fold_obs (map obs_of ls) Map.empty)"
proof -
  let ?buf = "first @ newline # encode ls @ part"
  have "find_newline ([] @ first @ newline # encode ls @ part) (length ([]::string))
          = length ([]::string) + length first"
    using assms(3) by (rule find_newline_skip)
  then have s: "snap_start (offset c) ?buf = length first + 1"
    using assms(4) by (simp add: snap_start_def)
  have e: "snap_end ?buf = length first + 1 + length (encode ls)"
    unfolding snap_end_def using trim_end_lines [OF assms(2), of first ls] by simp
  have d: "drop (length first + 1) ?buf = encode ls @ part"
    by (metis append.assoc append_Cons append_Nil append_eq_conv_conj length_append_singleton Suc_eq_plus1)
  have "scan_lines ([] @ encode ls) (length ([]::string)) Map.empty
          = Inr (fold_obs (map obs_of ls) Map.empty)"
    using assms(1) by (rule scan_lines_encode)
  then show ?thesis
    using assms(5) s e d by (simp add: processChunk_def)
qed

section \<open>Range Partitioner: the layout\<close>

text \<open>
  The layout in closed form, for comparison with the loop: chunk \<open>i\<close> starts at
  \<open>i * chunkSize\<close> and holds \<open>chunkSize\<close> bytes or what is left of the file.
\<close>

definition nominal_chunk :: "nat \<Rightarrow> nat \<Rightarrow> nat \<Rightarrow> chunk" where
  "nominal_chunk fileSize chunkSize i =
     \<lparr>offset = i * chunkSize, size_c = min chunkSize (fileSize - i * chunkSize)\<rparr>"

definition chunk_count :: "nat \<Rightarrow> nat \<Rightarrow> nat" where
  "chunk_count fileSize chunkSize = (fileSize + chunkSize - 1) div chunkSize"

lemma chunk_count_less:
  assumes "0 < cs" shows "k < chunk_count F cs \<longleftrightarrow> k * cs < F"
proof -
  have "k < chunk_count F cs \<longleftrightarrow> Suc k \<le> (F + cs - 1) div cs"
    by (simp add: chunk_count_def Suc_le_eq)
  also have "\<dots> \<longleftrightarrow> Suc k * cs \<le> F + cs - 1"
    using assms by (simp add: less_eq_div_iff_mult_less_eq)
  also have "\<dots> \<longleftrightarrow> k * cs < F"
    using assms by auto
  finally show ?thesis .
qed

lemma make_chunks_from:
  assumes "0 < cs"
  shows "k \<le> chunk_count F cs \<Longrightarrow>
         make_chunks F cs (k * cs) acc
           = Some (acc @ map (nominal_chunk F cs) [k..<chunk_count F cs])"
proof (induction "chunk_count F cs - k" arbitrary: k acc)
  case 0
  then have "k = chunk_count F cs" by simp
  then have "\<not> k * cs < F" using chunk_count_less [OF assms, of k F] by simp
  then show ?case using \<open>k = chunk_count F cs\<close>
    by (subst make_chunks.simps) simp
next
  case (Suc d)
  then have lt: "k < chunk_count F cs" by simp
  then have kF: "k * cs < F" using chunk_count_less [OF assms] by simp
  have c: "\<lparr>offset = k * cs, size_c = (if k * cs + cs > F then F - k * cs else cs)\<rparr>
           = nominal_chunk F cs k"
    by (auto simp: nominal_chunk_def min_def)
  from Suc lt have "make_chunks F cs (Suc k * cs) (acc @ [nominal_chunk F cs k])
      = Some ((acc @ [nominal_chunk F cs k]) @ map (nominal_chunk F cs) [Suc k..<chunk_count F cs])"
    by (intro Suc.hyps(1)) auto
  then have "make_chunks F cs (k * cs + cs) (acc @ [nominal_chunk F cs k])
      = Some (acc @ map (nominal_chunk F cs) [k..<chunk_count F cs])"
    using lt by (simp add: upt_conv_Cons add.commute)
  with kF c show ?case
    by (subst make_chunks.simps) simp
qed

lemma sum_sizes:
  assumes "0 < cs"
  shows "n \<le> chunk_count F cs \<Longrightarrow>
     sum_list (map (size_c \<circ> nominal_chunk F cs) [0..<n]) = min F (n * cs)"
proof (induction n)
  case 0
  then show ?case by simp
next
  case (Suc n)
  then have "n * cs < F" using chunk_count_less [OF assms, of n F] by simp
  with Suc show ?case by (auto simp add: nominal_chunk_def min_def)
qed

lemma chunk_count_cover: assumes "0 < cs" shows "F \<le> chunk_count F cs * cs"
  using chunk_count_less [OF assms, of "chunk_count F cs" F] by simp

lemma nominal_chunk_size_max:
  "nominal_chunk_size F C = max (F div C) (1024 * 1024)"
  by (simp add: nominal_chunk_size_def Let_def max_def)

lemma partition_file_closed:
  "partition_file F C
     = Some (map (nominal_chunk F (nominal_chunk_size F C))
               [0..<chunk_count F (nominal_chunk_size F C)])"
proof -
  have pos: "0 < nominal_chunk_size F C"
    by (simp add: nominal_chunk_size_max max_def)
  from make_chunks_from [OF pos, of 0 F "[]"] show ?thesis
    by (simp add: partition_file_def)
qed

text \<open>A chunk of naturals as a chunk of 64-bit integers.\<close>

definition to64 :: "chunk \<Rightarrow> chunk64" where
  "to64 c = \<lparr>offset64 = int (offset c), size64 = int (size_c c)\<rparr>"


lemma wrap64_id: "- (2 ^ 63) \<le> x \<Longrightarrow> x < 2 ^ 63 \<Longrightarrow> wrap64 x = x"
  by (simp add: wrap64_def)

lemma wrap64_nonneg: "0 \<le> x \<Longrightarrow> x < 2 ^ 63 \<Longrightarrow> wrap64 x = x"
  by (simp add: wrap64_def)

lemma go_div_nonneg: "0 \<le> a \<Longrightarrow> a < 2 ^ 63 \<Longrightarrow> 1 \<le> b \<Longrightarrow> go_div a b = a div b"
proof -
  assume a: "0 \<le> a" "a < 2 ^ 63" and b: "1 \<le> b"
  have "sgn a * sgn b * (\<bar>a\<bar> div \<bar>b\<bar>) = a div b"
    using a b by (cases "a = 0") (simp_all add: sgn_if)
  moreover have "0 \<le> a div b" using a b by (simp add: pos_imp_zdiv_nonneg_iff)
  moreover have "a div b \<le> a" using a b
    by (metis div_by_1 zdiv_mono2 zero_less_one)
  ultimately show ?thesis using a by (simp add: go_div_def wrap64_nonneg)
qed

lemma nominal_chunk_size64_nat:
  assumes "1 \<le> C" and "int F < 2 ^ 63"
  shows "nominal_chunk_size64 (int F) (int C) = int (nominal_chunk_size F C)"
proof -
  have "go_div (int F) (int C) = int (F div C)"
    using assms by (simp add: go_div_nonneg zdiv_int)
  then show ?thesis
    by (simp add: nominal_chunk_size64_def nominal_chunk_size_def Let_def)
qed

lemma make_chunks64_from:
  assumes "0 < cs" and "int (chunk_count F cs * cs) < 2 ^ 63"
  shows "k \<le> chunk_count F cs \<Longrightarrow>
         make_chunks64 (int F) (int cs) (int (k * cs)) acc
           = Some (acc @ map (to64 \<circ> nominal_chunk F cs) [k..<chunk_count F cs])"
proof (induction "chunk_count F cs - k" arbitrary: k acc)
  case 0
  then have "k = chunk_count F cs" by simp
  then have "\<not> k * cs < F" using chunk_count_less [OF assms(1), of k F] by simp
  then have "\<not> int (k * cs) < int F" by (simp only: of_nat_less_iff not_False_eq_True)
  then show ?case using \<open>k = chunk_count F cs\<close>
    by (subst make_chunks64.simps) simp
next
  case (Suc d)
  then have lt: "k < chunk_count F cs" by simp
  then have kF: "k * cs < F" using chunk_count_less [OF assms(1)] by simp
  then have kF': "int (k * cs) < int F" by (simp only: of_nat_less_iff)
  have top: "int (Suc k * cs) < 2 ^ 63"
  proof -
    from lt have "Suc k * cs \<le> chunk_count F cs * cs" by (intro mult_le_mono1) simp
    then have "int (Suc k * cs) \<le> int (chunk_count F cs * cs)" by (simp only: of_nat_le_iff)
    with assms(2) show ?thesis by linarith
  qed
  have FB: "int F < 2 ^ 63"
  proof -
    have "int F \<le> int (chunk_count F cs * cs)"
      using chunk_count_cover [OF assms(1), of F] by (simp only: of_nat_le_iff)
    with assms(2) show ?thesis by linarith
  qed
  have w: "wrap64 (int (k * cs) + int cs) = int (Suc k * cs)"
  proof -
    have "int (k * cs) + int cs = int (Suc k * cs)" by (simp add: algebra_simps)
    with top have "int (k * cs) + int cs < 2 ^ 63" by (simp only:)
    moreover have "(0::int) \<le> int (k * cs) + int cs" by (rule add_nonneg_nonneg) simp_all
    ultimately have "wrap64 (int (k * cs) + int cs) = int (k * cs) + int cs"
      by (rule wrap64_nonneg [rotated])
    then show ?thesis by (simp add: algebra_simps)
  qed
  have w2: "wrap64 (int F - int (k * cs)) = int (F - k * cs)"
  proof -
    have "0 \<le> int (k * cs)" by simp
    then have "int F - int (k * cs) < 2 ^ 63" using FB by linarith
    moreover have "0 \<le> int F - int (k * cs)" using kF' by linarith
    ultimately have "wrap64 (int F - int (k * cs)) = int F - int (k * cs)"
      by (rule wrap64_nonneg [rotated])
    then show ?thesis using kF by simp
  qed
  have c: "\<lparr>offset64 = int (k * cs),
            size64 = (if int (Suc k * cs) > int F then int (F - k * cs) else int cs)\<rparr>
           = (to64 \<circ> nominal_chunk F cs) k"
    unfolding of_nat_less_iff by (auto simp: to64_def nominal_chunk_def min_def)
  from Suc lt have "make_chunks64 (int F) (int cs) (int (Suc k * cs))
        (acc @ [(to64 \<circ> nominal_chunk F cs) k])
      = Some ((acc @ [(to64 \<circ> nominal_chunk F cs) k])
              @ map (to64 \<circ> nominal_chunk F cs) [Suc k..<chunk_count F cs])"
    by (intro Suc.hyps(1)) auto
  then have "make_chunks64 (int F) (int cs) (int (Suc k * cs))
        (acc @ [(to64 \<circ> nominal_chunk F cs) k])
      = Some (acc @ map (to64 \<circ> nominal_chunk F cs) [k..<chunk_count F cs])"
    using lt by (simp add: upt_conv_Cons)
  then show ?case
    by (subst make_chunks64.simps) (simp only: kF' if_True w w2 c)
qed

lemma partition_file64_closed:
  assumes "1 \<le> C"
    and "int (chunk_count F (nominal_chunk_size F C) * nominal_chunk_size F C) < 2 ^ 63"
  shows "partition_file64 (int F) (int C)
     = Some (map (to64 \<circ> nominal_chunk F (nominal_chunk_size F C))
               [0..<chunk_count F (nominal_chunk_size F C)])"
proof -
  have pos: "0 < nominal_chunk_size F C"
    by (simp add: nominal_chunk_size_max max_def)
  have "int F \<le> int (chunk_count F (nominal_chunk_size F C) * nominal_chunk_size F C)"
    using chunk_count_cover [OF pos, of F] by (simp only: of_nat_le_iff)
  with assms(2) have "int F < 2 ^ 63" by linarith
  then have cs: "nominal_chunk_size64 (int F) (int C) = int (nominal_chunk_size F C)"
    using assms(1) by (simp add: nominal_chunk_size64_nat)
  from make_chunks64_from [OF pos assms(2), of 0 "[]"] show ?thesis
    by (simp add: partition_file64_def cs)
qed

lemma partition_file64_agrees:
  assumes "1 \<le> C"
    and "int (chunk_count F (nominal_chunk_size F C) * nominal_chunk_size F C) < 2 ^ 63"
  shows "partition_file64 (int F) (int C) = map_option (map to64) (partition_file F C)"
  using partition_file64_closed [OF assms] by (simp add: partition_file_closed)

lemma make_chunks64_prefix:
  assumes "make_chunks64 fileSize chunkSize off chunks = Some r"
  shows "\<exists>rest. r = chunks @ rest"
proof (rule make_chunks64.raw_induct
    [where P = "\<lambda>fileSize chunkSize off chunks r. \<exists>rest. r = chunks @ rest", OF _ assms],
    goal_cases)
  case (1 f fileSize chunkSize off chunks r)
  show ?case
  proof (cases "off < fileSize")
    case True
    with 1(2) have "f fileSize chunkSize (wrap64 (off + chunkSize))
        (chunks @ [\<lparr>offset64 = off,
                      size64 = (if fileSize < wrap64 (off + chunkSize) then wrap64 (fileSize - off)
                                else chunkSize)\<rparr>]) = Some r"
      by simp
    then obtain rest where
      "r = (chunks @ [\<lparr>offset64 = off,
                      size64 = (if fileSize < wrap64 (off + chunkSize) then wrap64 (fileSize - off)
                                else chunkSize)\<rparr>]) @ rest"
      using 1(1) by blast
    then show ?thesis by simp
  next
    case False
    with 1(2) show ?thesis by simp
  qed
qed

lemma sum_list_int: "sum_list (map (\<lambda>i. int (g i)) xs) = int (sum_list (map g xs))"
  by (induction xs) simp_all

text \<open>
  The largest sum the loop forms is \<open>\<lceil>F / chunkSize\<rceil> * chunkSize\<close>, the offset after
  the last chunk. A file below \<open>2^62\<close> bytes keeps it below \<open>2^63\<close>.
\<close>

lemma layout_bound_small_file:
  fixes F C :: int
  assumes "0 \<le> F" and "1 \<le> C" and "F < 2 ^ 62"
  shows "(F + max (F div C) (1024 * 1024) - 1) div max (F div C) (1024 * 1024)
           * max (F div C) (1024 * 1024) < 2 ^ 63"
proof -
  define cs where "cs = max (F div C) (1024 * 1024)"
  have pos: "0 < cs" by (simp add: cs_def max_def)
  have "F div C \<le> F" using assms(1,2) by (metis div_by_1 zdiv_mono2 zero_less_one)
  then have "cs < 2 ^ 62" using assms(3) by (simp add: cs_def)
  moreover have "(F + cs - 1) div cs * cs \<le> F + cs - 1"
  proof -
    have "0 \<le> (F + cs - 1) mod cs" using pos by simp
    moreover have "(F + cs - 1) div cs * cs + (F + cs - 1) mod cs = F + cs - 1"
      by (rule div_mult_mod_eq)
    ultimately show ?thesis by linarith
  qed
  moreover have "(2::int) ^ 63 = 2 * 2 ^ 62" by simp
  ultimately have "(F + cs - 1) div cs * cs < 2 ^ 63" using assms(3) by linarith
  then show ?thesis by (simp only: cs_def)
qed

text \<open>
  Claim C6, for the file sizes the 64-bit integers can hold. For every file size
  \<open>F \<ge> 0\<close> and worker count \<open>C \<ge> 1\<close> with \<open>\<lceil>F / chunkSize\<rceil> * chunkSize < 2^63\<close>,
  where \<open>chunkSize = max (F / C) 1 MiB\<close> is the nominal size (so for every
  \<open>F < 2^62\<close>), the partitioner returns \<open>\<lceil>F / chunkSize\<rceil>\<close> chunks: chunk \<open>i\<close> starts at
  \<open>i * chunkSize\<close>, so the chunks lie consecutively from offset \<open>0\<close>, each starting
  where its predecessor ends; every chunk but the last has the nominal size, the
  last holds the remaining bytes; no chunk is empty or larger than the nominal
  size; the sizes sum to \<open>F\<close>; and \<open>F = 0\<close> gives no chunk.
\<close>

theorem partition_file64_layout:
  fixes F C :: int
  assumes "0 \<le> F" and "1 \<le> C"
    and "(F + max (F div C) (1024 * 1024) - 1) div max (F div C) (1024 * 1024)
           * max (F div C) (1024 * 1024) < 2 ^ 63"
  shows "\<exists>chunks. partition_file64 F C = Some chunks \<and>
     int (length chunks)
       = (F + max (F div C) (1024 * 1024) - 1) div max (F div C) (1024 * 1024) \<and>
     (\<forall>i < length chunks. offset64 (chunks ! i) = int i * max (F div C) (1024 * 1024)) \<and>
     (\<forall>i < length chunks. size64 (chunks ! i) =
         (if Suc i < length chunks then max (F div C) (1024 * 1024)
          else F - int i * max (F div C) (1024 * 1024))) \<and>
     (\<forall>i < length chunks. 0 < size64 (chunks ! i) \<and>
         size64 (chunks ! i) \<le> max (F div C) (1024 * 1024)) \<and>
     (\<forall>i. Suc i < length chunks \<longrightarrow>
         offset64 (chunks ! Suc i) = offset64 (chunks ! i) + size64 (chunks ! i)) \<and>
     sum_list (map size64 chunks) = F \<and>
     (F = 0 \<longrightarrow> chunks = [])"
proof -
  define F' where "F' = nat F"
  define C' where "C' = nat C"
  define cs where "cs = nominal_chunk_size F' C'"
  define n where "n = chunk_count F' cs"
  define chunks where "chunks = map (to64 \<circ> nominal_chunk F' cs) [0..<n]"
  have F: "F = int F'" and C: "C = int C'" and C1: "1 \<le> C'"
    using assms(1,2) by (simp_all add: F'_def C'_def)
  have cs: "max (F div C) (1024 * 1024) = int cs"
    by (simp add: cs_def nominal_chunk_size_max F C zdiv_int of_nat_max)
  have pos: "0 < cs" by (simp add: cs_def nominal_chunk_size_max max_def)
  have len: "length chunks = n" by (simp add: chunks_def)
  have less: "\<And>k. k < n \<longleftrightarrow> k * cs < F'"
    unfolding n_def by (rule chunk_count_less [OF pos])
  have cnt: "(F + int cs - 1) div int cs = int n"
  proof -
    have "int (F' + cs - 1) = F + int cs - 1" using pos by (simp add: F of_nat_diff)
    then show ?thesis by (simp add: n_def chunk_count_def zdiv_int)
  qed
  have bound: "int (chunk_count F' (nominal_chunk_size F' C') * nominal_chunk_size F' C') < 2 ^ 63"
  proof -
    from assms(3) have "(F + int cs - 1) div int cs * int cs < 2 ^ 63" by (simp only: cs)
    then have "int n * int cs < 2 ^ 63" by (simp only: cnt)
    then show ?thesis by (simp add: n_def cs_def)
  qed
  have p: "partition_file64 F C = Some chunks"
    unfolding F C using partition_file64_closed [OF C1 bound]
    by (simp add: chunks_def n_def cs_def)
  have count: "int (length chunks) = (F + int cs - 1) div int cs"
    by (simp only: cnt len)
  have off: "\<forall>i < length chunks. offset64 (chunks ! i) = int i * int cs"
    by (simp add: chunks_def to64_def nominal_chunk_def)
  have sz: "\<forall>i < length chunks. size64 (chunks ! i)
              = (if Suc i < length chunks then int cs else F - int i * int cs)"
  proof (intro allI impI)
    fix i assume i: "i < length chunks"
    then have a: "size64 (chunks ! i) = int (min cs (F' - i * cs))"
      by (simp add: chunks_def to64_def nominal_chunk_def)
    from i have lt: "i * cs < F'" using less len by simp
    show "size64 (chunks ! i) = (if Suc i < length chunks then int cs else F - int i * int cs)"
    proof (cases "Suc i < length chunks")
      case True
      then have "Suc i * cs < F'" using less len by simp
      then show ?thesis using a True by simp
    next
      case False
      then have "\<not> Suc i * cs < F'" using less len by simp
      then have "min cs (F' - i * cs) = F' - i * cs" by simp
      moreover have "int (F' - i * cs) = F - int i * int cs"
        using lt by (simp add: F of_nat_diff)
      ultimately show ?thesis using a False by simp
    qed
  qed
  have szb: "\<forall>i < length chunks. 0 < size64 (chunks ! i) \<and> size64 (chunks ! i) \<le> int cs"
  proof (intro allI impI)
    fix i assume i: "i < length chunks"
    then have a: "size64 (chunks ! i) = int (min cs (F' - i * cs))"
      by (simp add: chunks_def to64_def nominal_chunk_def)
    from i have "i * cs < F'" using less len by simp
    with pos have "0 < min cs (F' - i * cs)" "min cs (F' - i * cs) \<le> cs" by simp_all
    with a show "0 < size64 (chunks ! i) \<and> size64 (chunks ! i) \<le> int cs" by simp
  qed
  have contig: "\<forall>i. Suc i < length chunks \<longrightarrow>
         offset64 (chunks ! Suc i) = offset64 (chunks ! i) + size64 (chunks ! i)"
    using off sz by (simp add: algebra_simps)
  have "sum_list (map size64 chunks)
          = sum_list (map (\<lambda>i. int ((size_c \<circ> nominal_chunk F' cs) i)) [0..<n])"
    by (simp add: chunks_def to64_def comp_def)
  also have "\<dots> = int (sum_list (map (size_c \<circ> nominal_chunk F' cs) [0..<n]))"
    by (rule sum_list_int)
  also have "\<dots> = int (min F' (n * cs))"
    using sum_sizes [OF pos, of n F'] by (simp add: n_def)
  also have "\<dots> = F"
    using chunk_count_cover [OF pos, of F'] by (simp add: n_def F)
  finally have total: "sum_list (map size64 chunks) = F" .
  have empty: "F = 0 \<longrightarrow> chunks = []"
    using less [of 0] by (auto simp: chunks_def F)
  show ?thesis
  proof (intro exI [of _ chunks] conjI)
    show "partition_file64 F C = Some chunks" by (rule p)
  qed (use count off sz szb contig total empty in \<open>simp_all only: cs\<close>)
qed

theorem partition_file64_layout_witness:
  "(0::int) \<le> 2621440 \<and> (1::int) \<le> 2 \<and>
   ((2621440::int) + max (2621440 div 2) (1024 * 1024) - 1) div max (2621440 div 2) (1024 * 1024)
      * max (2621440 div 2) (1024 * 1024) < 2 ^ 63 \<and>
   (\<exists>chunks. partition_file64 2621440 2 = Some chunks \<and>
      chunks = [\<lparr>offset64 = 0, size64 = 1310720\<rparr>, \<lparr>offset64 = 1310720, size64 = 1310720\<rparr>] \<and>
      int (length chunks) = (2621440 + max (2621440 div 2) (1024 * 1024) - 1)
                              div max (2621440 div 2) (1024 * 1024) \<and>
      sum_list (map size64 chunks) = 2621440)"
proof -
  have h1: "(0::int) \<le> 2621440" and h2: "(1::int) \<le> 2"
    and h3: "((2621440::int) + max (2621440 div 2) (1024 * 1024) - 1)
               div max (2621440 div 2) (1024 * 1024)
             * max (2621440 div 2) (1024 * 1024) < 2 ^ 63"
    by simp_all
  have e: "partition_file64 2621440 2
     = Some [\<lparr>offset64 = 0, size64 = 1310720\<rparr>, \<lparr>offset64 = 1310720, size64 = 1310720\<rparr>]"
    apply (simp add: partition_file64_def nominal_chunk_size64_def go_div_def wrap64_def)
    apply (subst make_chunks64.simps, simp add: wrap64_def)
    apply (subst make_chunks64.simps, simp add: wrap64_def)
    apply (subst make_chunks64.simps, simp add: wrap64_def)
    done
  from partition_file64_layout [OF h1 h2 h3]
  obtain chunks where c: "partition_file64 2621440 2 = Some chunks"
    and n: "int (length chunks) = (2621440 + max (2621440 div 2) (1024 * 1024) - 1)
                              div max (2621440 div 2) (1024 * 1024)"
    and s: "sum_list (map size64 chunks) = 2621440"
    by blast
  from c e have "chunks = [\<lparr>offset64 = 0, size64 = 1310720\<rparr>, \<lparr>offset64 = 1310720, size64 = 1310720\<rparr>]"
    by simp
  with c n s h1 h2 h3 show ?thesis by blast
qed

text \<open>
  Claim C6, as stated for every file size, fails. For \<open>F = 2^63 - 1\<close> and \<open>C = 3\<close>
  the nominal size is \<open>3074457345618258602\<close> and the fourth chunk starts at
  \<open>F - 1\<close>. There \<open>offset+size\<close> wraps to a negative number, the test
  \<open>offset+size > fileSize\<close> fails and the chunk keeps the nominal size instead of
  the one remaining byte; the loop goes on from a negative offset. Whatever the
  loop returns, if it returns, holds a chunk that reaches past the end of the
  file.
\<close>

theorem partition_file64_wraps_counterexample:
  "\<not> (\<exists>chunks. partition_file64 (2 ^ 63 - 1) 3 = Some chunks \<and>
        (\<forall>i < length chunks. offset64 (chunks ! i) + size64 (chunks ! i) \<le> 2 ^ 63 - 1))"
proof
  assume "\<exists>chunks. partition_file64 (2 ^ 63 - 1) 3 = Some chunks \<and>
        (\<forall>i < length chunks. offset64 (chunks ! i) + size64 (chunks ! i) \<le> 2 ^ 63 - 1)"
  then obtain chunks where p: "partition_file64 (2 ^ 63 - 1) 3 = Some chunks"
    and inside: "\<forall>i < length chunks. offset64 (chunks ! i) + size64 (chunks ! i) \<le> 2 ^ 63 - 1"
    by blast
  let ?cs = "3074457345618258602 :: int"
  let ?first4 = "[\<lparr>offset64 = 0, size64 = ?cs\<rparr>,
                  \<lparr>offset64 = 3074457345618258602, size64 = ?cs\<rparr>,
                  \<lparr>offset64 = 6148914691236517204, size64 = ?cs\<rparr>,
                  \<lparr>offset64 = 9223372036854775806, size64 = ?cs\<rparr>]"
  have "partition_file64 (2 ^ 63 - 1) 3
          = make_chunks64 9223372036854775807 ?cs (- 6148914691236517208) ?first4"
    apply (simp add: partition_file64_def nominal_chunk_size64_def go_div_def wrap64_def)
    apply (subst make_chunks64.simps, simp add: wrap64_def)
    apply (subst make_chunks64.simps, simp add: wrap64_def)
    apply (subst make_chunks64.simps, simp add: wrap64_def)
    apply (subst make_chunks64.simps, simp add: wrap64_def)
    done
  with p have "make_chunks64 9223372036854775807 ?cs (- 6148914691236517208) ?first4 = Some chunks"
    by simp
  then obtain rest where r: "chunks = ?first4 @ rest"
    using make_chunks64_prefix by blast
  then have "3 < length chunks" and "chunks ! 3 = \<lparr>offset64 = 9223372036854775806, size64 = ?cs\<rparr>"
    by simp_all
  with inside have "(9223372036854775806::int) + ?cs \<le> 2 ^ 63 - 1"
    by (metis chunk64.select_convs(1) chunk64.select_convs(2))
  then show False by simp
qed

section \<open>Aggregates: folding and merging\<close>

text \<open>
  Notions to state the claims with: the observations of one key in a sequence, the
  aggregate of a non-empty list of values, and what the specification asks of an aggregate
  that stands for the list \<open>vs\<close> of the observations folded into it.
\<close>

definition vals :: "string \<Rightarrow> (string \<times> real) list \<Rightarrow> real list" where
  "vals k obs = map snd (filter (\<lambda>p. fst p = k) obs)"

definition aggregate_of :: "real list \<Rightarrow> Result" where
  "aggregate_of vs =
     \<lparr>min_r = Min (set vs), max_r = Max (set vs), sum_r = sum_list vs,
      count_r = int (length vs)\<rparr>"

definition summary :: "real list \<Rightarrow> Result option" where
  "summary vs = (if vs = [] then None else Some (aggregate_of vs))"



lemma vals_simps [simp]:
  "vals k [] = []"
  "vals k ((k', v) # obs) = (if k' = k then v # vals k obs else vals k obs)"
  "vals k (xs @ ys) = vals k xs @ vals k ys"
  by (simp_all add: vals_def)

lemma vals_concat: "vals k (concat css) = concat (map (vals k) css)"
  by (induction css) simp_all

lemma aggregate_of_single: "aggregate_of [v] = new_result v"
  by (simp add: aggregate_of_def new_result_def)

lemma update_result_min_max:
  "update_result \<lparr>min_r = m, max_r = M, sum_r = s, count_r = n\<rparr> v
     = \<lparr>min_r = min v m, max_r = max v M, sum_r = s + v, count_r = n + 1\<rparr>"
  by (auto simp: update_result_def min_def max_def)


lemma update_aggregate_of:
  assumes "vs \<noteq> []"
  shows "update_result (aggregate_of vs) v = aggregate_of (vs @ [v])"
proof -
  from assms have "Min (set (vs @ [v])) = min v (Min (set vs))"
    and "Max (set (vs @ [v])) = max v (Max (set vs))"
    by simp_all
  then show ?thesis
    unfolding aggregate_of_def update_result_min_max by simp
qed


lemma observe_summary:
  "tab k = summary vs \<Longrightarrow>
   observe tab k' v k = summary (if k' = k then vs @ [v] else vs)"
  by (auto simp: observe_def summary_def aggregate_of_single [symmetric]
        update_aggregate_of split: option.splits if_splits)

lemma fold_obs_summary:
  "tab k = summary vs \<Longrightarrow> fold_obs obs tab k = summary (vs @ vals k obs)"
proof (induction obs arbitrary: tab vs)
  case Nil
  then show ?case by simp
next
  case (Cons p obs)
  obtain k' v where p: "p = (k', v)" by (cases p)
  from Cons.prems have "observe tab k' v k = summary (if k' = k then vs @ [v] else vs)"
    by (rule observe_summary)
  then have "fold_obs obs (observe tab k' v) k
      = summary ((if k' = k then vs @ [v] else vs) @ vals k obs)"
    by (rule Cons.IH)
  then show ?case by (simp add: p)
qed

lemma fold_obs_empty_summary: "fold_obs obs Map.empty k = summary (vals k obs)"
  using fold_obs_summary [of Map.empty k "[]" obs] by (simp add: summary_def)



















section \<open>The invariant of an aggregate\<close>













section \<open>Lines at the seam of two chunks\<close>

lemma encode_replicate:
  "encode (replicate n (k, tok)) = concat (replicate n (k @ CHR '';'' # tok @ [newline]))"
  by (simp add: encode_def encode_line_def)

lemma length_concat_replicate: "length (concat (replicate n xs)) = n * length xs"
  by (induction n) simp_all

lemma fold_obs_replicate_same:
  "0 < n \<Longrightarrow> fold_obs (replicate n (k, v)) Map.empty k
     = Some \<lparr>min_r = v, max_r = v, sum_r = real n * v, count_r = int n\<rparr>"
proof -
  assume n: "0 < n"
  have "vals k (replicate n (k, v)) = replicate n v"
    by (simp add: vals_def)
  with n show ?thesis
    by (simp add: fold_obs_empty_summary summary_def aggregate_of_def sum_list_replicate)
qed

lemma fold_obs_replicate_other:
  "k' \<noteq> k \<Longrightarrow> fold_obs (replicate n (k, v)) Map.empty k' = None"
  by (simp add: fold_obs_empty_summary summary_def vals_def)

lemma temp_of_1: "temp_of ''1'' = 1"
  by (simp add: temp_of_def parseTemp_def digit_def)

lemma merge_table_empty [simp]:
  "merge_table t Map.empty = t" "merge_table Map.empty t = t"
  by (rule ext, simp add: merge_table_def split: option.splits)+

text \<open>
  A file of two chunks: whole lines and the start \<open>part1\<close> of a further line fill
  the first MiB, the rest \<open>first2\<close> of that line and its newline follow. The run
  counts the whole lines of the first chunk only.
\<close>

lemma run_seam:
  assumes wf: "\<forall>l \<in> set ls. wf_line l"
    and p1: "newline \<notin> set part1" and p2: "newline \<notin> set first2"
    and len1: "length (encode ls @ part1) = 1024 * 1024"
    and len2: "length first2 + 1 \<le> 1024 * 1024"
    and C: "(1024 * 1024 + length first2 + 1) div C < 1024 * 1024"
  shows "run \<lparr>contents = encode ls @ part1 @ first2 @ [newline], fault = None\<rparr> C
           = Some (Inr (fold_obs (map obs_of ls) Map.empty))"
proof -
  let ?file = "\<lparr>contents = encode ls @ part1 @ first2 @ [newline], fault = None\<rparr>"
  let ?F = "length (contents ?file)"
  let ?c0 = "\<lparr>offset = 0, size_c = 1024 * 1024\<rparr>"
  let ?c1 = "\<lparr>offset = 1024 * 1024, size_c = length first2 + 1\<rparr>"
  have F: "?F = 1024 * 1024 + length first2 + 1"
    using len1 by simp
  have cs: "nominal_chunk_size ?F C = 1024 * 1024"
    using C unfolding F by (simp add: nominal_chunk_size_def)
  have "make_chunks ?F (1024 * 1024) 0 [] = make_chunks ?F (1024 * 1024) (1024 * 1024) [?c0]"
    unfolding F by (subst make_chunks.simps) simp
  also have "\<dots> = make_chunks ?F (1024 * 1024) (1024 * 1024 + 1024 * 1024) [?c0, ?c1]"
    unfolding F using len2 by (subst make_chunks.simps) auto
  also have "\<dots> = Some [?c0, ?c1]"
    unfolding F using len2 by (subst make_chunks.simps) simp
  finally have mk: "make_chunks ?F (1024 * 1024) 0 [] = Some [?c0, ?c1]" .
  have chunks: "partition_file ?F C = Some [?c0, ?c1]"
    unfolding partition_file_def cs by (rule mk)
  have take0: "take (1024 * 1024) (contents ?file) = encode ls @ part1"
    using len1 by (metis append.assoc append_eq_conv_conj os_file.select_convs(1))
  have drop0: "drop (1024 * 1024) (contents ?file) = first2 @ [newline]"
    using len1 by (metis append.assoc append_eq_conv_conj os_file.select_convs(1))
  have r0: "ReadFull ?file (offset ?c0) (size_c ?c0) = Inr (encode ls @ part1)"
    using take0 F by (simp add: ReadFull_def)
  have r1: "ReadFull ?file (offset ?c1) (size_c ?c1) = Inr (first2 @ newline # encode [] @ [])"
    using drop0 F by (simp add: ReadFull_def)
  have t0: "processChunk ?file ?c0 = Inr (fold_obs (map obs_of ls) Map.empty)"
    using wf p1 _ r0 by (rule scan_first_chunk) simp
  have t1: "processChunk ?file ?c1 = Inr (fold_obs (map obs_of []) Map.empty)"
    using _ _ p2 _ r1 by (rule scan_later_chunk) simp_all
  show ?thesis
    unfolding run_def chunks using t0 t1 by simp
qed

text \<open>
  Claim C1. Every complete line is to be counted exactly once, wherever the chunk
  boundaries fall. The code drops the line at every seam: a scanner with
  \<open>offset > 0\<close> skips up to and including the first newline of its chunk, also when
  the chunk starts on a line start, and the scanner before it trims the partial line
  at its end. With 8 workers the seam is at 1 MiB. In a file of 262144 lines
  \<open>a;1\<close> (1 MiB) followed by the line \<open>b;2\<close>, the seam falls on a newline and
  \<open>b;2\<close> is counted by no scanner; in a file of 262143 lines \<open>a;1\<close> followed by the
  line \<open>bbbb;2\<close>, the seam falls inside that line and it is counted by no scanner.
\<close>

theorem run_drops_line_at_seam:
  "run \<lparr>contents = concat (replicate 262144 ''a;1\<newline>'') @ ''b;2\<newline>'', fault = None\<rparr> 8
     = Some (Inr (fold_obs (replicate 262144 (''a'', 1)) Map.empty)) \<and>
   fold_obs (replicate 262144 (''a'', 1)) Map.empty ''b'' = None \<and>
   fold_obs (replicate 262144 (''a'', 1)) Map.empty ''a''
     = Some \<lparr>min_r = 1, max_r = 1, sum_r = 262144, count_r = 262144\<rparr> \<and>
   run \<lparr>contents = concat (replicate 262143 ''a;1\<newline>'') @ ''bbbb;2\<newline>'', fault = None\<rparr> 8
     = Some (Inr (fold_obs (replicate 262143 (''a'', 1)) Map.empty)) \<and>
   fold_obs (replicate 262143 (''a'', 1)) Map.empty ''bbbb'' = None"
proof -
  have wf: "\<And>n. \<forall>l \<in> set (replicate n (''a'', ''1'')). wf_line l"
    by (simp add: wf_line_def)
  have enc: "\<And>n. encode (replicate n (''a'', ''1'')) = concat (replicate n ''a;1\<newline>'')"
    by (simp add: encode_replicate)
  have len: "\<And>n. length (encode (replicate n (''a'', ''1''))) = n * 4"
    by (simp add: enc length_concat_replicate)
  have "run \<lparr>contents = encode (replicate 262144 (''a'', ''1'')) @ [] @ ''b;2'' @ [newline],
             fault = None\<rparr> 8
          = Some (Inr (fold_obs (map obs_of (replicate 262144 (''a'', ''1''))) Map.empty))"
    by (rule run_seam [OF wf]) (simp_all add: len)
  then have A: "run \<lparr>contents = concat (replicate 262144 ''a;1\<newline>'') @ ''b;2\<newline>'',
                     fault = None\<rparr> 8
          = Some (Inr (fold_obs (replicate 262144 (''a'', 1)) Map.empty))"
    by (simp add: obs_of_def temp_of_1 enc)
  have "run \<lparr>contents = encode (replicate 262143 (''a'', ''1'')) @ ''bbbb'' @ '';2'' @ [newline],
             fault = None\<rparr> 8
          = Some (Inr (fold_obs (map obs_of (replicate 262143 (''a'', ''1''))) Map.empty))"
    by (rule run_seam [OF wf]) (simp_all add: len)
  then have B: "run \<lparr>contents = concat (replicate 262143 ''a;1\<newline>'') @ ''bbbb;2\<newline>'',
                     fault = None\<rparr> 8
          = Some (Inr (fold_obs (replicate 262143 (''a'', 1)) Map.empty))"
    by (simp add: obs_of_def temp_of_1 enc)
  have a: "fold_obs (replicate 262144 (''a'', 1)) Map.empty ''a''
     = Some \<lparr>min_r = 1, max_r = 1, sum_r = 262144, count_r = 262144\<rparr>"
    using fold_obs_replicate_same [of 262144 "''a''" 1] by simp
  have b: "fold_obs (replicate 262144 (''a'', 1)) Map.empty ''b'' = None"
    by (rule fold_obs_replicate_other) simp
  have b': "fold_obs (replicate 262143 (''a'', 1)) Map.empty ''bbbb'' = None"
    by (rule fold_obs_replicate_other) simp
  from A B a b b' show ?thesis by blast
qed

section \<open>Boundary files and malformed lines\<close>

text \<open>
  Claim C7. An empty file gives a Global Table with no entry and no error, and a
  file of one line \<open>key;value\<close> with its newline gives one key with
  \<open>min = max = mean = value\<close> and \<open>count = 1\<close>. A file that holds only a newline
  does not give the empty table: the scan for \<open>;\<close> on the empty line runs past
  the end of the buffer and the run panics. (A single line without its newline is
  trimmed away and gives the empty table.)
\<close>

theorem run_boundary_files:
  "run \<lparr>contents = '''', fault = None\<rparr> 8 = Some (Inr Map.empty) \<and>
   run \<lparr>contents = ''\<newline>'', fault = None\<rparr> 8 = Some (Inl IndexOutOfRange) \<and>
   (\<exists>g. run \<lparr>contents = ''Hamburg;12.5\<newline>'', fault = None\<rparr> 8 = Some (Inr g) \<and>
        dom g = {''Hamburg''} \<and>
        g ''Hamburg'' = Some \<lparr>min_r = 12.5, max_r = 12.5, sum_r = 12.5, count_r = 1\<rparr> \<and>
        mean \<lparr>min_r = 12.5, max_r = 12.5, sum_r = 12.5, count_r = 1\<rparr> = 12.5) \<and>
   run \<lparr>contents = ''Hamburg;12.5'', fault = None\<rparr> 8 = Some (Inr Map.empty)"
proof (intro conjI)
  show "run \<lparr>contents = '''', fault = None\<rparr> 8 = Some (Inr Map.empty)"
    by (simp add: run_eval)
  show "run \<lparr>contents = ''\<newline>'', fault = None\<rparr> 8 = Some (Inl IndexOutOfRange)"
    by (simp add: run_eval scan_eval)
  show "\<exists>g. run \<lparr>contents = ''Hamburg;12.5\<newline>'', fault = None\<rparr> 8 = Some (Inr g) \<and>
        dom g = {''Hamburg''} \<and>
        g ''Hamburg'' = Some \<lparr>min_r = 12.5, max_r = 12.5, sum_r = 12.5, count_r = 1\<rparr> \<and>
        mean \<lparr>min_r = 12.5, max_r = 12.5, sum_r = 12.5, count_r = 1\<rparr> = 12.5"
    by (simp add: run_eval scan_eval mean_def dom_def)
  show "run \<lparr>contents = ''Hamburg;12.5'', fault = None\<rparr> 8 = Some (Inr Map.empty)"
    by (simp add: run_eval scan_eval)
qed

text \<open>
  Claim C8. A line without \<open>;\<close> is to meet one policy, skip or abort, with every
  scan bounded by the end of the buffer, the same in both programs. boxer.go skips
  the line. 1brc.go does neither: the unbounded scan for \<open>;\<close> takes the line and the
  start of the next one as one key (\<open>abc\<close>, newline, \<open>x\<close>), and when no \<open>;\<close>
  follows it reads past the end of the buffer and panics.
\<close>

theorem missing_separator_policies:
  "(\<exists>t. processChunk \<lparr>contents = ''abc\<newline>x;1\<newline>'', fault = None\<rparr> \<lparr>offset = 0, size_c = 8\<rparr> = Inr t \<and>
        t ''abc\<newline>x'' = Some \<lparr>min_r = 1, max_r = 1, sum_r = 1, count_r = 1\<rparr> \<and> t ''x'' = None) \<and>
   processChunk \<lparr>contents = ''x;1\<newline>abc\<newline>'', fault = None\<rparr> \<lparr>offset = 0, size_c = 8\<rparr>
     = Inl IndexOutOfRange \<and>
   (\<exists>t. stats_lines [''abc'', ''x;1''] Map.empty = Inr t \<and>
        t ''x'' = Some \<lparr>min_r = 1, max_r = 1, sum_r = 1, count_r = 1\<rparr> \<and> t ''abc\<newline>x'' = None) \<and>
   (\<exists>t. stats_lines [''x;1'', ''abc''] Map.empty = Inr t \<and>
        t ''x'' = Some \<lparr>min_r = 1, max_r = 1, sum_r = 1, count_r = 1\<rparr>)"
proof (intro conjI)
  show "\<exists>t. processChunk \<lparr>contents = ''abc\<newline>x;1\<newline>'', fault = None\<rparr> \<lparr>offset = 0, size_c = 8\<rparr> = Inr t \<and>
        t ''abc\<newline>x'' = Some \<lparr>min_r = 1, max_r = 1, sum_r = 1, count_r = 1\<rparr> \<and> t ''x'' = None"
    by (simp add: scan_eval)
  show "processChunk \<lparr>contents = ''x;1\<newline>abc\<newline>'', fault = None\<rparr> \<lparr>offset = 0, size_c = 8\<rparr>
     = Inl IndexOutOfRange"
    by (simp add: scan_eval)
  show "\<exists>t. stats_lines [''abc'', ''x;1''] Map.empty = Inr t \<and>
        t ''x'' = Some \<lparr>min_r = 1, max_r = 1, sum_r = 1, count_r = 1\<rparr> \<and> t ''abc\<newline>x'' = None"
    by (simp add: stats_line_def parseTemp_boxer_def digit_def observe_def new_result_def)
  show "\<exists>t. stats_lines [''x;1'', ''abc''] Map.empty = Inr t \<and>
        t ''x'' = Some \<lparr>min_r = 1, max_r = 1, sum_r = 1, count_r = 1\<rparr>"
    by (simp add: stats_line_def parseTemp_boxer_def digit_def observe_def new_result_def)
qed

end
